theory Spec2Isabelle
  imports Main
begin

section \<open>Data model of CompletePhotoTime.cpp\<close>

text \<open>
  Times (\<open>std::time_t\<close>) and the \<open>long long\<close> configuration values are modelled as
  mathematical integers: signed overflow is undefined behaviour in C++, so the model
  describes the program on the inputs whose 64-bit arithmetic stays in range (the anchor
  times all pass \<open>plausible\<close>, which bounds them between 1980 and one day ahead of now).
  Vector indices (\<open>int\<close> in the source) are natural numbers; the test \<open>L - 1 >= 0\<close>
  is written \<open>1 \<le> L\<close>.
\<close>

record Options =
  recursive :: bool
  dryRun :: bool
  enableFilenameFallbackForShot :: bool
  enableFilenameOverrideForTarget :: bool
  filenameOverrideDays :: int
  anchorGapLimitDays :: int
  oneSideStep :: bool
  oneSideStepSeconds :: int
  writeExifIfMissing :: bool
  syncFileTimes :: bool
  verbose :: bool

text \<open>The enumerator \<open>ShotSource::None\<close> is named \<open>NoSource\<close> here.\<close>

datatype ShotSource = NoSource | ExifOrXmp | Filename

text \<open>
  \<open>ctime\<close> and \<open>wtime\<close> exist only in the Windows build (\<open>#ifdef _WIN32\<close>); the
  functions that read them take the platform as a flag and ignore the two fields
  elsewhere.
\<close>

record Item =
  path :: string
  mtime :: int
  ctime :: "int option"
  wtime :: "int option"
  shot :: "int option"
  shotSource :: ShotSource
  target :: "int option"
  targetReason :: string

section \<open>Time helpers\<close>

definition absDiffSec :: "int \<Rightarrow> int \<Rightarrow> int" where
  "absDiffSec a b = (let da = a; db = b in \<bar>da - db\<bar>)"

text \<open>The quotient of C++ \<open>/\<close> on integers: it truncates toward zero.\<close>

definition cdiv :: "int \<Rightarrow> int \<Rightarrow> int" where
  "cdiv a b = (if (a < 0) = (b < 0) then \<bar>a\<bar> div \<bar>b\<bar> else - (\<bar>a\<bar> div \<bar>b\<bar>))"

section \<open>Choosing the shot time (anchor)\<close>


section \<open>Filename override rule for the target\<close>

definition applyFilenameOverrideForTarget ::
  "(string \<Rightarrow> int option) \<Rightarrow> bool \<Rightarrow> Options \<Rightarrow> Item \<Rightarrow> Item" where
  "applyFilenameOverrideForTarget parseFilenameTime win32 opt it =
     (if \<not> enableFilenameOverrideForTarget opt then it
      else case parseFilenameTime (path it) of
        None \<Rightarrow> it
      | Some nt \<Rightarrow>
          (let thresholdSec = filenameOverrideDays opt * 86400 in
           if win32 then
             (if ctime it \<noteq> None \<and> wtime it \<noteq> None then
                (let dc = absDiffSec (the (ctime it)) nt;
                     dw = absDiffSec (the (wtime it)) nt
                 in if dc > thresholdSec \<and> dw > thresholdSec
                    then it\<lparr>target := Some nt,
                            targetReason := ''filename override (fs create/write too far)''\<rparr>
                    else it)
              else
                (let dm = absDiffSec (mtime it) nt
                 in if dm > thresholdSec
                    then it\<lparr>target := Some nt,
                            targetReason := ''filename override (mtime too far)''\<rparr>
                    else it))
           else
             (let dm = absDiffSec (mtime it) nt
              in if dm > thresholdSec
                 then it\<lparr>target := Some nt,
                         targetReason := ''filename override (mtime too far)''\<rparr>
                 else it)))"

section \<open>Interpolation for missing shot times\<close>

text \<open>The inner scan \<open>while (i < n && !items[i].shot) i++\<close>.\<close>

function scanMissing :: "Item list \<Rightarrow> nat \<Rightarrow> nat" where
  "scanMissing items i =
     (if i < length items \<and> shot (items ! i) = None then scanMissing items (Suc i) else i)"
  by pat_completeness auto
termination
  by (relation "measure (\<lambda>(items, i). length items - i)") auto

declare scanMissing.simps [simp del]

text \<open>
  The lambda \<open>setIfEmptyTarget\<close>. The source calls it only with \<open>idx\<close> inside the
  vector; outside, the list update below changes nothing.
\<close>

definition setIfEmptyTarget :: "Item list \<Rightarrow> nat \<Rightarrow> int \<Rightarrow> string \<Rightarrow> Item list" where
  "setIfEmptyTarget items idx t reason =
     (if target (items ! idx) = None
      then items[idx := (items ! idx)\<lparr>target := Some t, targetReason := reason\<rparr>]
      else items)"

text \<open>
  The body of the outer loop once a run \<open>L .. L + m - 1\<close> of records without shot time
  has been found: the four cases on \<open>Tprev\<close> and \<open>Tnext\<close>, each \<open>for\<close> loop a fold over
  its index range.
\<close>

definition fillSegment ::
  "Options \<Rightarrow> Item list \<Rightarrow> nat \<Rightarrow> nat \<Rightarrow> int option \<Rightarrow> int option \<Rightarrow> Item list" where
  "fillSegment opt items L m Tprev Tnext =
     (let gapLimitSec = anchorGapLimitDays opt * 86400 in
      case (Tprev, Tnext) of
        (Some tp, Some tn) \<Rightarrow>
          (let gap = tn - tp in
           if \<bar>gap\<bar> > gapLimitSec then
             fold (\<lambda>j its. setIfEmptyTarget its (L + j)
                     (if j < m div 2 then tp else tn)
                     ''gap too large -> nearest anchor fill'') [0..<m] items
           else
             (let absGap = \<bar>gap\<bar> in
              if absGap < int (m + 1) then
                (let dir = (if gap \<ge> 0 then 1 else - 1) in
                 fold (\<lambda>k its. setIfEmptyTarget its (L + (k - 1))
                         (tp + dir * int k * oneSideStepSeconds opt)
                         ''anchors too close -> step-filled'') [1..<m + 1] items)
              else
                fold (\<lambda>k its. setIfEmptyTarget its (L + (k - 1))
                        (let add = cdiv (gap * int k) (int (m + 1)) in tp + add)
                        ''interpolated between anchors'') [1..<m + 1] items))
      | (Some tp, None) \<Rightarrow>
          fold (\<lambda>j its. setIfEmptyTarget its (L + j)
                  (if oneSideStep opt then tp + (int j + 1) * oneSideStepSeconds opt else tp)
                  (if oneSideStep opt then ''only prev anchor -> filled +1s steps''
                   else ''only prev anchor -> filled'')) [0..<m] items
      | (None, Some tn) \<Rightarrow>
          fold (\<lambda>j its. setIfEmptyTarget its (L + j)
                  (if oneSideStep opt then tn - (int m - int j) * oneSideStepSeconds opt else tn)
                  (if oneSideStep opt then ''only next anchor -> filled -1s steps''
                   else ''only next anchor -> filled'')) [0..<m] items
      | (None, None) \<Rightarrow> items)"

lemma length_setIfEmptyTarget [simp]:
  "length (setIfEmptyTarget items idx t reason) = length items"
  by (simp add: setIfEmptyTarget_def)

lemma length_fold_setIfEmptyTarget [simp]:
  "length (fold (\<lambda>j its. setIfEmptyTarget its (g j) (f j) (r j)) js items) = length items"
  by (induction js arbitrary: items) simp_all

lemma length_fillSegment [simp]:
  "length (fillSegment opt items L m Tprev Tnext) = length items"
  by (simp add: fillSegment_def Let_def split: option.splits)

lemma scanMissing_le: "i \<le> length items \<Longrightarrow> scanMissing items i \<le> length items"
proof (induction items i rule: scanMissing.induct)
  case (1 items i)
  show ?case
  proof (cases "i < length items \<and> shot (items ! i) = None")
    case True
    with "1.IH" show ?thesis by (subst scanMissing.simps) simp
  next
    case False
    with "1.prems" show ?thesis by (subst scanMissing.simps) auto
  qed
qed

lemma scanMissing_ge: "i \<le> scanMissing items i"
proof (induction items i rule: scanMissing.induct)
  case (1 items i)
  show ?case
  proof (cases "i < length items \<and> shot (items ! i) = None")
    case True
    with "1.IH" show ?thesis by (subst scanMissing.simps) simp
  next
    case False
    then show ?thesis by (subst scanMissing.simps) auto
  qed
qed

lemma scanMissing_gt:
  "i < length items \<Longrightarrow> shot (items ! i) = None \<Longrightarrow> i < scanMissing items i"
  using scanMissing_ge [of "Suc i" items] by (subst scanMissing.simps) simp

text \<open>The outer loop \<open>while (i < n)\<close> of \<open>inferMissingByInterpolation\<close>.\<close>

function inferLoop :: "Options \<Rightarrow> Item list \<Rightarrow> nat \<Rightarrow> Item list" where
  "inferLoop opt items i =
     (if i < length items then
        (if shot (items ! i) \<noteq> None then inferLoop opt items (Suc i)
         else
           (let L = i;
                i' = scanMissing items i;
                R = i' - 1;
                m = R - L + 1;
                Tprev = (if 1 \<le> L then shot (items ! (L - 1)) else None);
                Tnext = (if R + 1 < length items then shot (items ! (R + 1)) else None)
            in inferLoop opt (fillSegment opt items L m Tprev Tnext) i'))
      else items)"
  by pat_completeness auto
termination
proof (relation "measure (\<lambda>(opt, items, i). length items - i)", goal_cases)
  case 1
  show ?case by simp
next
  case (2 opt items i)
  then show ?case by simp
next
  case (3 opt items i L i' R m Tprev Tnext)
  then have "i < i'" "i' \<le> length items"
    using scanMissing_gt [of i items] scanMissing_le [of i items] by simp_all
  then show ?case by simp
qed

declare inferLoop.simps [simp del]

definition inferMissingByInterpolation :: "Options \<Rightarrow> Item list \<Rightarrow> Item list" where
  "inferMissingByInterpolation opt items = inferLoop opt items 0"

section \<open>Making the filled targets unique\<close>

text \<open>One iteration of the range-\<open>for\<close> on a record whose target is set.\<close>

definition bumpIfNeeded :: "int \<Rightarrow> int option \<Rightarrow> Item \<Rightarrow> Item" where
  "bumpIfNeeded step prevTarget it =
     (let isFilled = (shot it = None) in
      if prevTarget \<noteq> None \<and> isFilled \<and> the (target it) \<le> the prevTarget then
        (let bumped = the prevTarget + step in
         it\<lparr>target := Some bumped,
            targetReason :=
              (if targetReason it \<noteq> [] then targetReason it @ '' + '' else targetReason it)
              @ ''unique(+1s steps)''\<rparr>)
      else it)"

fun uniqueLoop :: "int \<Rightarrow> int option \<Rightarrow> Item list \<Rightarrow> Item list" where
  "uniqueLoop step prevTarget [] = []"
| "uniqueLoop step prevTarget (it # rest) =
     (if target it = None then it # uniqueLoop step prevTarget rest
      else (let it' = bumpIfNeeded step prevTarget it
            in it' # uniqueLoop step (target it') rest))"

definition makeFilledTargetsStrictlyIncreasing :: "Options \<Rightarrow> Item list \<Rightarrow> Item list" where
  "makeFilledTargetsStrictlyIncreasing opt items =
     (let step = max 1 (oneSideStepSeconds opt) in uniqueLoop step None items)"

section \<open>The target pipeline of main\<close>

text \<open>The loop \<open>if (!it.target && it.shot)\<close> of \<open>main\<close>, on one record.\<close>

definition defaultAssign :: "Item \<Rightarrow> Item" where
  "defaultAssign it =
     (if target it = None \<and> shot it \<noteq> None
      then it\<lparr>target := shot it,
              targetReason := (if shotSource it = Filename then ''shot from filename''
                               else ''shot from metadata'')\<rparr>
      else it)"

text \<open>
  \<open>main\<close> from the override loop to the uniqueness pass, on the vector as sorted by
  modification time and path.
\<close>

definition resolveTargets ::
  "(string \<Rightarrow> int option) \<Rightarrow> bool \<Rightarrow> Options \<Rightarrow> Item list \<Rightarrow> Item list" where
  "resolveTargets parseFilenameTime win32 opt items =
     (let items1 = (if enableFilenameOverrideForTarget opt
                    then map (applyFilenameOverrideForTarget parseFilenameTime win32 opt) items
                    else items);
          items2 = map defaultAssign items1;
          items3 = inferMissingByInterpolation opt items2
      in makeFilledTargetsStrictlyIncreasing opt items3)"

section \<open>Example inputs\<close>

text \<open>The default member initialisers of \<open>struct Options\<close>.\<close>

definition defaultOptions :: Options where
  "defaultOptions =
     \<lparr>recursive = True, dryRun = True,
      enableFilenameFallbackForShot = True, enableFilenameOverrideForTarget = True,
      filenameOverrideDays = 7, anchorGapLimitDays = 90,
      oneSideStep = True, oneSideStepSeconds = 1,
      writeExifIfMissing = True, syncFileTimes = True, verbose = True\<rparr>"

text \<open>
  A record as \<open>collectFiles\<close> creates it (path and modification time given, everything
  else default-initialised), and the same record after \<open>fillShotTime\<close> found a shot time
  in the metadata.
\<close>

definition newItem :: "string \<Rightarrow> int \<Rightarrow> Item" where
  "newItem p mt =
     \<lparr>path = p, mtime = mt, ctime = None, wtime = None, shot = None,
      shotSource = NoSource, target = None, targetReason = []\<rparr>"

definition anchorItem :: "string \<Rightarrow> int \<Rightarrow> int \<Rightarrow> Item" where
  "anchorItem p mt t = (newItem p mt)\<lparr>shot := Some t, shotSource := ExifOrXmp\<rparr>"


text \<open>Two anchors at 0 and 1000000000 around four records without shot time.\<close>

definition exNearest :: "Item list" where
  "exNearest =
     [anchorItem ''a.jpg'' 1 0, newItem ''b.jpg'' 2, newItem ''c.jpg'' 3, newItem ''d.jpg'' 4,
      newItem ''e.jpg'' 5, anchorItem ''f.jpg'' 6 1000000000]"



text \<open>An anchor at 100 followed by three records without shot time, and three such
  records followed by an anchor at 500.\<close>

definition exOnlyPrev :: "Item list" where
  "exOnlyPrev =
     [anchorItem ''a.jpg'' 1 100, newItem ''b.jpg'' 2, newItem ''c.jpg'' 3, newItem ''d.jpg'' 4]"

definition exOnlyNext :: "Item list" where
  "exOnlyNext =
     [newItem ''a.jpg'' 1, newItem ''b.jpg'' 2, newItem ''c.jpg'' 3, anchorItem ''d.jpg'' 4 500]"

text \<open>A record without shot time whose target the filename override has set, a record
  with neither, and an anchor after the default assignment.\<close>

definition exOverridden :: "Item list" where
  "exOverridden =
     [(newItem ''IMG_20210704_123305.jpg'' 1700000000)
        \<lparr>target := Some 1625401985, targetReason := ''filename override (mtime too far)''\<rparr>,
      newItem ''b.jpg'' 1700000001,
      defaultAssign (anchorItem ''c.jpg'' 1700000002 1600000000)]"

text \<open>One anchor between two records without shot time.\<close>

definition exOneAnchor :: "Item list" where
  "exOneAnchor = [newItem ''a.jpg'' 1, anchorItem ''b.jpg'' 2 500, newItem ''c.jpg'' 3]"

text \<open>A reader that finds no time in any file.\<close>

definition noTime :: "string \<Rightarrow> int option" where
  "noTime p = None"

text \<open>An anchor resolved to 100, followed by a record whose inferred target is 99.\<close>

definition exBump :: "Item list" where
  "exBump =
     [defaultAssign (anchorItem ''a.jpg'' 1 100),
      (newItem ''b.jpg'' 2)\<lparr>target := Some 99, targetReason := ''interpolated between anchors''\<rparr>]"





section \<open>Notions used to state the properties\<close>

text \<open>What \<open>setIfEmptyTarget\<close> does to the record it is pointed at.\<close>

definition fillItem :: "Item \<Rightarrow> int \<Rightarrow> string \<Rightarrow> Item" where
  "fillItem it t reason =
     (if target it = None then it\<lparr>target := Some t, targetReason := reason\<rparr> else it)"

text \<open>
  \<open>Tprev\<close> and \<open>Tnext\<close> as the outer loop reads them for the run that starts at \<open>L\<close>
  and has \<open>m\<close> records.
\<close>

definition prevAnchor :: "Item list \<Rightarrow> nat \<Rightarrow> int option" where
  "prevAnchor items L = (if 1 \<le> L then shot (items ! (L - 1)) else None)"

definition nextAnchor :: "Item list \<Rightarrow> nat \<Rightarrow> nat \<Rightarrow> int option" where
  "nextAnchor items L m = (if L + m < length items then shot (items ! (L + m)) else None)"

text \<open>
  A segment: a maximal non-empty run \<open>L .. L + m - 1\<close> of records without shot time; the
  records next to it, where they exist, have one.
\<close>

definition segment :: "Item list \<Rightarrow> nat \<Rightarrow> nat \<Rightarrow> bool" where
  "segment items L m \<longleftrightarrow>
     0 < m \<and> L + m \<le> length items
     \<and> (\<forall>p \<in> {L..<L + m}. shot (items ! p) = None)
     \<and> (1 \<le> L \<longrightarrow> shot (items ! (L - 1)) \<noteq> None)
     \<and> (L + m < length items \<longrightarrow> shot (items ! (L + m)) \<noteq> None)"

text \<open>
  The value of \<open>prevTarget\<close> after the uniqueness sweep has passed over a list of
  records, read off their final targets: the target of the last record that has one,
  or the initial value when there is none.
\<close>

fun lastTarget :: "int option \<Rightarrow> Item list \<Rightarrow> int option" where
  "lastTarget prev [] = prev"
| "lastTarget prev (it # rest) = lastTarget (if target it = None then prev else target it) rest"

section \<open>Filling one run\<close>

text \<open>
  Each \<open>for\<close> loop of a case writes the records of the run one by one; the lemmas below
  read the result off at a single index.
\<close>

lemma nth_setIfEmptyTarget:
  "setIfEmptyTarget xs idx t r ! p =
     (if p = idx \<and> idx < length xs then fillItem (xs ! p) t r else xs ! p)"
  by (cases "idx < length xs")
     (auto simp: setIfEmptyTarget_def fillItem_def nth_list_update list_update_beyond)

lemma nth_fold_fill:
  "fold (\<lambda>j its. setIfEmptyTarget its (L + j) (f j) r) [0..<m] xs ! p =
     (if L \<le> p \<and> p < L + m \<and> p < length xs then fillItem (xs ! p) (f (p - L)) r else xs ! p)"
proof (induction m arbitrary: p)
  case 0
  show ?case by auto
next
  case (Suc m)
  show ?case
    by (simp add: nth_setIfEmptyTarget Suc.IH)
qed

lemma fold_from_one:
  "fold (\<lambda>k its. setIfEmptyTarget its (L + (k - 1)) (f k) r) [1..<m + 1] xs =
   fold (\<lambda>j its. setIfEmptyTarget its (L + j) (f (Suc j)) r) [0..<m] xs"
proof -
  have "[1..<m + 1] = map Suc [0..<m]"
    by (simp add: map_Suc_upt)
  then show ?thesis
    by (simp add: fold_map comp_def)
qed

lemma nth_fold_fill_one:
  "fold (\<lambda>k its. setIfEmptyTarget its (L + (k - 1)) (f k) r) [1..<m + 1] xs ! p =
     (if L \<le> p \<and> p < L + m \<and> p < length xs
      then fillItem (xs ! p) (f (Suc (p - L))) r else xs ! p)"
  by (simp only: fold_from_one nth_fold_fill)

lemma nth_fold_fill_Suc:
  "fold (\<lambda>k its. setIfEmptyTarget its (L + (k - Suc 0)) (f k) r) [Suc 0..<Suc m] xs ! p =
     (if L \<le> p \<and> p < L + m \<and> p < length xs
      then fillItem (xs ! p) (f (Suc (p - L))) r else xs ! p)"
  using nth_fold_fill_one [of L f r m xs p] by (simp del: upt_Suc)

lemma fillSegment_None: "fillSegment opt items L m None None = items"
  by (simp add: fillSegment_def)

lemma fillSegment_nearest:
  assumes "\<bar>tn - tp\<bar> > anchorGapLimitDays opt * 86400"
    and "L \<le> p" "p < L + m" "p < length items"
  shows "fillSegment opt items L m (Some tp) (Some tn) ! p =
           fillItem (items ! p) (if p - L < m div 2 then tp else tn)
             ''gap too large -> nearest anchor fill''"
  using assms by (simp add: fillSegment_def nth_fold_fill)

lemma fillSegment_close:
  assumes "\<not> \<bar>tn - tp\<bar> > anchorGapLimitDays opt * 86400" "\<bar>tn - tp\<bar> < int (m + 1)"
    and "L \<le> p" "p < L + m" "p < length items"
  shows "fillSegment opt items L m (Some tp) (Some tn) ! p =
           fillItem (items ! p)
             (tp + (if tn - tp \<ge> 0 then 1 else - 1) * int (Suc (p - L)) * oneSideStepSeconds opt)
             ''anchors too close -> step-filled''"
  using assms by (simp add: fillSegment_def nth_fold_fill_Suc Let_def del: upt_Suc)

lemma fillSegment_interpolate:
  assumes "\<not> \<bar>tn - tp\<bar> > anchorGapLimitDays opt * 86400" "\<not> \<bar>tn - tp\<bar> < int (m + 1)"
    and "L \<le> p" "p < L + m" "p < length items"
  shows "fillSegment opt items L m (Some tp) (Some tn) ! p =
           fillItem (items ! p)
             (tp + cdiv ((tn - tp) * int (Suc (p - L))) (int (m + 1)))
             ''interpolated between anchors''"
  using assms by (simp add: fillSegment_def nth_fold_fill_Suc Let_def del: upt_Suc)

lemma fillSegment_prev:
  assumes "L \<le> p" "p < L + m" "p < length items"
  shows "fillSegment opt items L m (Some tp) None ! p =
           fillItem (items ! p)
             (if oneSideStep opt then tp + (int (p - L) + 1) * oneSideStepSeconds opt else tp)
             (if oneSideStep opt then ''only prev anchor -> filled +1s steps''
              else ''only prev anchor -> filled'')"
  using assms by (simp add: fillSegment_def nth_fold_fill)

lemma fillSegment_next:
  assumes "L \<le> p" "p < L + m" "p < length items"
  shows "fillSegment opt items L m None (Some tn) ! p =
           fillItem (items ! p)
             (if oneSideStep opt then tn - (int m - int (p - L)) * oneSideStepSeconds opt else tn)
             (if oneSideStep opt then ''only next anchor -> filled -1s steps''
              else ''only next anchor -> filled'')"
  using assms by (simp add: fillSegment_def nth_fold_fill)

lemma fillSegment_outside:
  "\<not> (L \<le> p \<and> p < L + m) \<Longrightarrow> fillSegment opt items L m a b ! p = items ! p"
  by (cases a; cases b)
     (auto simp add: fillSegment_def nth_fold_fill nth_fold_fill_Suc Let_def simp del: upt_Suc)

lemma fillSegment_inside:
  assumes "L \<le> p" "p < L + m" "a \<noteq> None \<or> b \<noteq> None"
  shows "\<exists>t r. \<forall>items. p < length items \<longrightarrow>
           fillSegment opt items L m a b ! p = fillItem (items ! p) t r"
proof (cases a)
  case None
  with assms obtain tn where "b = Some tn" by auto
  with None assms fillSegment_next show ?thesis by blast
next
  case (Some tp)
  show ?thesis
  proof (cases b)
    case None
    with Some assms fillSegment_prev show ?thesis by blast
  next
    case b: (Some tn)
    consider "\<bar>tn - tp\<bar> > anchorGapLimitDays opt * 86400"
      | "\<not> \<bar>tn - tp\<bar> > anchorGapLimitDays opt * 86400" "\<bar>tn - tp\<bar> < int (m + 1)"
      | "\<not> \<bar>tn - tp\<bar> > anchorGapLimitDays opt * 86400" "\<not> \<bar>tn - tp\<bar> < int (m + 1)"
      by blast
    then show ?thesis
    proof cases
      case 1
      with Some b assms fillSegment_nearest show ?thesis by blast
    next
      case 2
      with Some b assms fillSegment_close show ?thesis by blast
    next
      case 3
      with Some b assms fillSegment_interpolate show ?thesis by blast
    qed
  qed
qed

lemma target_fillItem: "target (fillItem it t r) \<noteq> None"
  by (simp add: fillItem_def)

lemma fillItem_cases:
  "(target it = None \<longrightarrow> target (fillItem it t r) = Some t \<and> targetReason (fillItem it t r) = r)
   \<and> (target it \<noteq> None \<longrightarrow> fillItem it t r = it)"
  by (auto simp: fillItem_def)

lemma fillSegment_keeps:
  assumes "target (items ! p) \<noteq> None" "p < length items"
  shows "fillSegment opt items L m a b ! p = items ! p"
proof (cases "L \<le> p \<and> p < L + m \<and> (a \<noteq> None \<or> b \<noteq> None)")
  case True
  then obtain t r where "fillSegment opt items L m a b ! p = fillItem (items ! p) t r"
    using fillSegment_inside [of L p m a b opt] assms(2) by blast
  with assms(1) show ?thesis by (auto simp: fillItem_def)
next
  case False
  then show ?thesis
    using fillSegment_outside [of L p m opt items a b] fillSegment_None [of opt items L m]
    by auto
qed

lemma shot_fillSegment:
  assumes "p < length items"
  shows "shot (fillSegment opt items L m a b ! p) = shot (items ! p)"
proof (cases "L \<le> p \<and> p < L + m \<and> (a \<noteq> None \<or> b \<noteq> None)")
  case True
  then obtain t r where "fillSegment opt items L m a b ! p = fillItem (items ! p) t r"
    using fillSegment_inside [of L p m a b opt] assms by blast
  then show ?thesis by (simp add: fillItem_def)
next
  case False
  then show ?thesis
    using fillSegment_outside [of L p m opt items a b] fillSegment_None [of opt items L m]
    by auto
qed

lemma fillSegment_agree:
  assumes "items ! p = items' ! p" "p < length items" "p < length items'"
  shows "fillSegment opt items L m a b ! p = fillSegment opt items' L m a b ! p"
proof (cases "L \<le> p \<and> p < L + m \<and> (a \<noteq> None \<or> b \<noteq> None)")
  case True
  then obtain t r where
    "\<forall>xs. p < length xs \<longrightarrow> fillSegment opt xs L m a b ! p = fillItem (xs ! p) t r"
    using fillSegment_inside [of L p m a b opt] by blast
  with assms show ?thesis by simp
next
  case False
  then show ?thesis
    using fillSegment_outside [of L p m opt items a b] fillSegment_None [of opt items L m]
      fillSegment_outside [of L p m opt items' a b] fillSegment_None [of opt items' L m] assms(1)
    by auto
qed

lemma fillSegment_fills:
  assumes "L \<le> p" "p < L + m" "p < length items" "a \<noteq> None \<or> b \<noteq> None"
  shows "target (fillSegment opt items L m a b ! p) \<noteq> None"
proof -
  obtain t r where "fillSegment opt items L m a b ! p = fillItem (items ! p) t r"
    using fillSegment_inside [OF assms(1,2,4), of opt] assms(3) by auto
  then show ?thesis by (simp only: target_fillItem not_False_eq_True)
qed

lemma fillSegment_target_kept:
  assumes "target (items ! p) \<noteq> None" "p < length items"
  shows "target (fillSegment opt items L m a b ! p) \<noteq> None"
  using assms by (simp add: fillSegment_keeps)

section \<open>The inner scan\<close>

text \<open>
  The scan stops at the first record with a shot time, or at the end of the vector.
\<close>

lemma scanMissing_run:
  "i \<le> p \<Longrightarrow> p < scanMissing items i \<Longrightarrow> p < length items \<and> shot (items ! p) = None"
proof (induction items i rule: scanMissing.induct)
  case (1 items i)
  show ?case
  proof (cases "i < length items \<and> shot (items ! i) = None")
    case True
    then have eq: "scanMissing items i = scanMissing items (Suc i)"
      by (subst scanMissing.simps) simp
    show ?thesis
    proof (cases "p = i")
      case True
      with \<open>i < length items \<and> shot (items ! i) = None\<close> show ?thesis by simp
    next
      case False
      with "1.prems" eq "1.IH" [OF True] show ?thesis by simp
    qed
  next
    case False
    then have "scanMissing items i = i"
      by (subst scanMissing.simps) auto
    with "1.prems" show ?thesis by simp
  qed
qed

lemma scanMissing_stop:
  "scanMissing items i < length items \<Longrightarrow> shot (items ! scanMissing items i) \<noteq> None"
proof (induction items i rule: scanMissing.induct)
  case (1 items i)
  show ?case
  proof (cases "i < length items \<and> shot (items ! i) = None")
    case True
    then have "scanMissing items i = scanMissing items (Suc i)"
      by (subst scanMissing.simps) simp
    with "1.prems" "1.IH" [OF True] show ?thesis by simp
  next
    case False
    then have "scanMissing items i = i"
      by (subst scanMissing.simps) auto
    with "1.prems" False show ?thesis by auto
  qed
qed

lemma scanMissing_eq:
  assumes "i \<le> e" "e \<le> length items"
    and "\<forall>p. i \<le> p \<and> p < e \<longrightarrow> shot (items ! p) = None"
    and "e < length items \<longrightarrow> shot (items ! e) \<noteq> None"
  shows "scanMissing items i = e"
proof -
  define s where "s = scanMissing items i"
  have ge: "i \<le> s"
    unfolding s_def by (rule scanMissing_ge)
  have stop: "s < length items \<Longrightarrow> shot (items ! s) \<noteq> None"
    unfolding s_def by (rule scanMissing_stop)
  have run: "e < s \<Longrightarrow> e < length items \<and> shot (items ! e) = None"
    unfolding s_def using assms(1) by (rule scanMissing_run)
  have "\<not> s < e"
  proof
    assume lt: "s < e"
    with assms(2) have "s < length items" by linarith
    then have "shot (items ! s) \<noteq> None" by (rule stop)
    moreover from assms(3) ge lt have "shot (items ! s) = None" by simp
    ultimately show False by contradiction
  qed
  moreover have "\<not> e < s"
  proof
    assume "e < s"
    then have "e < length items \<and> shot (items ! e) = None" by (rule run)
    with assms(4) show False by simp
  qed
  ultimately have "s = e" by linarith
  then show ?thesis by (simp only: s_def)
qed

lemma scanMissing_bound:
  assumes "i \<le> q" "shot (items ! q) \<noteq> None"
  shows "scanMissing items i \<le> q"
proof (rule ccontr)
  assume "\<not> scanMissing items i \<le> q"
  then have "q < scanMissing items i" by simp
  with assms(1) have "shot (items ! q) = None"
    using scanMissing_run [of i q items] by simp
  with assms(2) show False by simp
qed

section \<open>The outer loop\<close>

text \<open>
  One unfolding of the loop for each way through its body, then what the loop leaves
  alone and what it writes on a segment.
\<close>

lemma inferLoop_done: "\<not> i < length items \<Longrightarrow> inferLoop opt items i = items"
  by (subst inferLoop.simps) simp

lemma inferLoop_skip:
  "i < length items \<Longrightarrow> shot (items ! i) \<noteq> None \<Longrightarrow>
     inferLoop opt items i = inferLoop opt items (Suc i)"
  by (subst inferLoop.simps) simp

lemma inferLoop_run:
  assumes "i < length items" "shot (items ! i) = None"
  shows "inferLoop opt items i =
           inferLoop opt
             (fillSegment opt items i (scanMissing items i - i) (prevAnchor items i)
                (nextAnchor items i (scanMissing items i - i)))
             (scanMissing items i)"
proof -
  have gt: "i < scanMissing items i"
    using assms by (rule scanMissing_gt)
  then have m: "scanMissing items i - 1 - i + 1 = scanMissing items i - i"
    and r: "scanMissing items i - 1 + 1 = scanMissing items i"
    and e: "i + (scanMissing items i - i) = scanMissing items i"
    by simp_all
  show ?thesis
    using assms
    by (subst inferLoop.simps) (simp only: Let_def m r e prevAnchor_def nextAnchor_def if_True if_False simp_thms)
qed

lemma length_inferLoop: "length (inferLoop opt items i) = length items"
proof (induction "length items - i" arbitrary: items i rule: less_induct)
  case less
  show ?case
  proof (cases "i < length items")
    case False
    then show ?thesis by (simp add: inferLoop_done)
  next
    case True
    show ?thesis
    proof (cases "shot (items ! i) = None")
      case False
      with True less [of items "Suc i"] show ?thesis
        by (simp add: inferLoop_skip)
    next
      case None: True
      define i' where "i' = scanMissing items i"
      define items' where
        "items' = fillSegment opt items i (i' - i) (prevAnchor items i) (nextAnchor items i (i' - i))"
      have gt: "i < i'"
        unfolding i'_def using True None by (rule scanMissing_gt)
      have eq: "inferLoop opt items i = inferLoop opt items' i'"
        unfolding items'_def i'_def using True None by (rule inferLoop_run)
      have "length items' - i' < length items - i"
        using gt True by (simp add: items'_def)
      then have "length (inferLoop opt items' i') = length items'"
        by (rule less)
      with eq show ?thesis by (simp add: items'_def)
    qed
  qed
qed

lemma inferLoop_below: "p < i \<Longrightarrow> inferLoop opt items i ! p = items ! p"
proof (induction "length items - i" arbitrary: items i rule: less_induct)
  case less
  show ?case
  proof (cases "i < length items")
    case False
    then show ?thesis by (simp add: inferLoop_done)
  next
    case True
    show ?thesis
    proof (cases "shot (items ! i) = None")
      case False
      with True less.prems less.hyps [of items "Suc i"] show ?thesis
        by (simp add: inferLoop_skip)
    next
      case None: True
      define i' where "i' = scanMissing items i"
      define items' where
        "items' = fillSegment opt items i (i' - i) (prevAnchor items i) (nextAnchor items i (i' - i))"
      have gt: "i < i'"
        unfolding i'_def using True None by (rule scanMissing_gt)
      have eq: "inferLoop opt items i = inferLoop opt items' i'"
        unfolding items'_def i'_def using True None by (rule inferLoop_run)
      have "length items' - i' < length items - i"
        using gt True by (simp add: items'_def)
      moreover have "p < i'" using less.prems gt by simp
      ultimately have "inferLoop opt items' i' ! p = items' ! p"
        by (rule less.hyps)
      moreover have "items' ! p = items ! p"
        unfolding items'_def using less.prems by (simp add: fillSegment_outside)
      ultimately show ?thesis using eq by simp
    qed
  qed
qed

lemma inferLoop_keeps:
  "target (items ! p) \<noteq> None \<Longrightarrow> p < length items \<Longrightarrow> inferLoop opt items i ! p = items ! p"
proof (induction "length items - i" arbitrary: items i rule: less_induct)
  case less
  show ?case
  proof (cases "i < length items")
    case False
    then show ?thesis by (simp add: inferLoop_done)
  next
    case True
    show ?thesis
    proof (cases "shot (items ! i) = None")
      case False
      with True less.prems less.hyps [of items "Suc i"] show ?thesis
        by (simp add: inferLoop_skip)
    next
      case None: True
      define i' where "i' = scanMissing items i"
      define items' where
        "items' = fillSegment opt items i (i' - i) (prevAnchor items i) (nextAnchor items i (i' - i))"
      have gt: "i < i'"
        unfolding i'_def using True None by (rule scanMissing_gt)
      have eq: "inferLoop opt items i = inferLoop opt items' i'"
        unfolding items'_def i'_def using True None by (rule inferLoop_run)
      have same: "items' ! p = items ! p"
        unfolding items'_def using less.prems by (rule fillSegment_keeps)
      have "length items' - i' < length items - i"
        using gt True by (simp add: items'_def)
      moreover have "target (items' ! p) \<noteq> None" using same less.prems(1) by simp
      moreover have "p < length items'" using less.prems(2) by (simp add: items'_def)
      ultimately have "inferLoop opt items' i' ! p = items' ! p"
        by (rule less.hyps)
      with same eq show ?thesis by simp
    qed
  qed
qed

lemma shot_inferLoop:
  "p < length items \<Longrightarrow> shot (inferLoop opt items i ! p) = shot (items ! p)"
proof (induction "length items - i" arbitrary: items i rule: less_induct)
  case less
  show ?case
  proof (cases "i < length items")
    case False
    then show ?thesis by (simp add: inferLoop_done)
  next
    case True
    show ?thesis
    proof (cases "shot (items ! i) = None")
      case False
      with True less.prems less.hyps [of items "Suc i"] show ?thesis
        by (simp add: inferLoop_skip)
    next
      case None: True
      define i' where "i' = scanMissing items i"
      define items' where
        "items' = fillSegment opt items i (i' - i) (prevAnchor items i) (nextAnchor items i (i' - i))"
      have gt: "i < i'"
        unfolding i'_def using True None by (rule scanMissing_gt)
      have eq: "inferLoop opt items i = inferLoop opt items' i'"
        unfolding items'_def i'_def using True None by (rule inferLoop_run)
      have same: "shot (items' ! p) = shot (items ! p)"
        unfolding items'_def using less.prems by (rule shot_fillSegment)
      have "length items' - i' < length items - i"
        using gt True by (simp add: items'_def)
      moreover have "p < length items'" using less.prems by (simp add: items'_def)
      ultimately have "shot (inferLoop opt items' i' ! p) = shot (items' ! p)"
        by (rule less.hyps)
      with same eq show ?thesis by simp
    qed
  qed
qed

lemma inferLoop_resolved:
  assumes "\<forall>it \<in> set items. target it \<noteq> None"
  shows "inferLoop opt items i = items"
proof (rule nth_equalityI)
  show "length (inferLoop opt items i) = length items" by (rule length_inferLoop)
next
  fix p assume "p < length (inferLoop opt items i)"
  then have p: "p < length items" by (simp add: length_inferLoop)
  with assms have "target (items ! p) \<noteq> None" by simp
  then show "inferLoop opt items i ! p = items ! p" using p by (rule inferLoop_keeps)
qed

lemma segment_bound: "segment items L m \<Longrightarrow> j < m \<Longrightarrow> L + j < length items"
  by (simp add: segment_def)

lemma segment_same_shots:
  assumes "segment xs L m" "length ys = length xs"
    and "\<forall>p < length xs. shot (ys ! p) = shot (xs ! p)"
  shows "segment ys L m \<and> prevAnchor ys L = prevAnchor xs L
           \<and> nextAnchor ys L m = nextAnchor xs L m"
proof -
  from assms(1) have b: "0 < m" "L + m \<le> length xs"
    by (simp_all add: segment_def)
  then have "L - 1 < length xs" by simp
  with assms(3) have p: "shot (ys ! (L - 1)) = shot (xs ! (L - 1))" by simp
  have n: "L + m < length xs \<Longrightarrow> shot (ys ! (L + m)) = shot (xs ! (L + m))"
    using assms(3) by simp
  have r: "\<forall>p \<in> {L..<L + m}. shot (ys ! p) = shot (xs ! p)"
    using assms(3) b by simp
  from assms(1) r p n b show ?thesis
    by (simp add: segment_def prevAnchor_def nextAnchor_def assms(2))
qed

lemma inferLoop_segment:
  assumes "segment items L m" "i \<le> L" "L \<le> p" "p < L + m"
  shows "inferLoop opt items i ! p =
           fillSegment opt items L m (prevAnchor items L) (nextAnchor items L m) ! p"
  using assms
proof (induction "length items - i" arbitrary: items i rule: less_induct)
  case less
  from less.prems(1) have m: "0 < m" and bound: "L + m \<le> length items"
    and run: "\<forall>q \<in> {L..<L + m}. shot (items ! q) = None"
    and before: "1 \<le> L \<longrightarrow> shot (items ! (L - 1)) \<noteq> None"
    and after: "L + m < length items \<longrightarrow> shot (items ! (L + m)) \<noteq> None"
    by (simp_all add: segment_def)
  from m bound less.prems(2) have True: "i < length items" by simp
  have pl: "p < length items" using less.prems(4) bound by simp
  show ?case
  proof (cases "shot (items ! i) = None")
    case False
    with run less.prems(2) m have "i \<noteq> L" by auto
    with less.prems(2) have "Suc i \<le> L" by simp
    moreover have "length items - Suc i < length items - i" using True by simp
    ultimately have "inferLoop opt items (Suc i) ! p =
        fillSegment opt items L m (prevAnchor items L) (nextAnchor items L m) ! p"
      using less.hyps [of items "Suc i"] less.prems by simp
    with True False show ?thesis by (simp add: inferLoop_skip)
  next
    case None: True
    define i' where "i' = scanMissing items i"
    define items' where
      "items' = fillSegment opt items i (i' - i) (prevAnchor items i) (nextAnchor items i (i' - i))"
    have gt: "i < i'"
      unfolding i'_def using True None by (rule scanMissing_gt)
    have eq: "inferLoop opt items i = inferLoop opt items' i'"
      unfolding items'_def i'_def using True None by (rule inferLoop_run)
    have len: "length items' = length items" by (simp add: items'_def)
    show ?thesis
    proof (cases "i = L")
      case True
      have "scanMissing items L = L + m"
      proof (rule scanMissing_eq)
        show "L \<le> L + m" by simp
        show "L + m \<le> length items" by (rule bound)
        show "\<forall>q. L \<le> q \<and> q < L + m \<longrightarrow> shot (items ! q) = None" using run by simp
        show "L + m < length items \<longrightarrow> shot (items ! (L + m)) \<noteq> None" by (rule after)
      qed
      with True have i': "i' = L + m" and mm: "i' - i = m" by (simp_all add: i'_def)
      have "inferLoop opt items' i' ! p = items' ! p"
        using less.prems(4) i' by (simp add: inferLoop_below)
      with eq True mm show ?thesis by (simp add: items'_def)
    next
      case False
      with less.prems(2) have lt: "i < L" by simp
      then have "1 \<le> L" by simp
      with before have "shot (items ! (L - 1)) \<noteq> None" by simp
      moreover have "i \<le> L - 1" using lt by simp
      ultimately have "i' \<le> L - 1"
        unfolding i'_def by (rule scanMissing_bound [rotated])
      with lt have i'L: "i' \<le> L" by simp
      have shots: "\<forall>q < length items. shot (items' ! q) = shot (items ! q)"
        by (simp add: items'_def shot_fillSegment)
      from segment_same_shots [OF less.prems(1) len shots]
      have seg': "segment items' L m" and pa: "prevAnchor items' L = prevAnchor items L"
        and na: "nextAnchor items' L m = nextAnchor items L m" by simp_all
      have "length items' - i' < length items - i"
        using gt True len by simp
      then have "inferLoop opt items' i' ! p =
          fillSegment opt items' L m (prevAnchor items' L) (nextAnchor items' L m) ! p"
        using seg' i'L less.prems(3) less.prems(4) by (rule less.hyps)
      moreover have "\<not> (i \<le> p \<and> p < i + (i' - i))"
        using i'L less.prems(3) gt by simp
      then have "items' ! p = items ! p"
        unfolding items'_def by (rule fillSegment_outside)
      then have "fillSegment opt items' L m (prevAnchor items L) (nextAnchor items L m) ! p =
          fillSegment opt items L m (prevAnchor items L) (nextAnchor items L m) ! p"
        using pl len by (intro fillSegment_agree) simp_all
      ultimately show ?thesis using eq pa na by simp
    qed
  qed
qed

lemma infer_segment:
  assumes "segment items L m" "j < m"
  shows "inferMissingByInterpolation opt items ! (L + j) =
           fillSegment opt items L m (prevAnchor items L) (nextAnchor items L m) ! (L + j)"
  unfolding inferMissingByInterpolation_def
  using assms by (intro inferLoop_segment) simp_all


lemma inferLoop_all_targets:
  assumes "\<exists>q < length items. shot (items ! q) \<noteq> None"
    and "\<forall>q < length items. shot (items ! q) \<noteq> None \<longrightarrow> target (items ! q) \<noteq> None"
    and "\<forall>q < i. q < length items \<longrightarrow> target (items ! q) \<noteq> None"
    and "i = 0 \<or> length items \<le> i \<or> shot (items ! (i - 1)) \<noteq> None \<or> shot (items ! i) \<noteq> None"
  shows "\<forall>q < length items. target (inferLoop opt items i ! q) \<noteq> None"
  using assms
proof (induction "length items - i" arbitrary: items i rule: less_induct)
  case less
  show ?case
  proof (cases "i < length items")
    case False
    with less.prems(3) show ?thesis by (simp add: inferLoop_done)
  next
    case True
    show ?thesis
    proof (cases "shot (items ! i) = None")
      case False
      with True less.prems(2) have ti: "target (items ! i) \<noteq> None" by simp
      have "\<forall>q < Suc i. q < length items \<longrightarrow> target (items ! q) \<noteq> None"
        using less.prems(3) ti by (simp add: less_Suc_eq)
      moreover have "Suc i = 0 \<or> length items \<le> Suc i \<or> shot (items ! (Suc i - 1)) \<noteq> None
          \<or> shot (items ! Suc i) \<noteq> None"
        using False by simp
      moreover have "length items - Suc i < length items - i" using True by simp
      ultimately have "\<forall>q < length items. target (inferLoop opt items (Suc i) ! q) \<noteq> None"
        using less.hyps [of items "Suc i"] less.prems(1,2) by simp
      with True False show ?thesis by (simp add: inferLoop_skip)
    next
      case None: True
      define i' where "i' = scanMissing items i"
      define a where "a = prevAnchor items i"
      define b where "b = nextAnchor items i (i' - i)"
      define items' where "items' = fillSegment opt items i (i' - i) a b"
      have gt: "i < i'"
        unfolding i'_def using True None by (rule scanMissing_gt)
      have le: "i' \<le> length items"
        unfolding i'_def using True by (simp add: scanMissing_le)
      have eq: "inferLoop opt items i = inferLoop opt items' i'"
        unfolding items'_def i'_def a_def b_def using True None by (rule inferLoop_run)
      have len: "length items' = length items" by (simp add: items'_def)
      have shots: "\<forall>q < length items. shot (items' ! q) = shot (items ! q)"
        by (simp add: items'_def shot_fillSegment)
      have ab: "a \<noteq> None \<or> b \<noteq> None"
      proof (cases "i = 0")
        case False
        with less.prems(4) True None have "shot (items ! (i - 1)) \<noteq> None" by simp
        with False show ?thesis by (simp add: a_def prevAnchor_def)
      next
        case i0: True
        show ?thesis
        proof (cases "i' < length items")
          case True
          then have "shot (items ! i') \<noteq> None"
            unfolding i'_def by (rule scanMissing_stop)
          with True gt show ?thesis by (simp add: b_def nextAnchor_def)
        next
          case False
          with le have "i' = length items" by simp
          then have "\<forall>q < length items. shot (items ! q) = None"
            using scanMissing_run [of i _ items] i0 by (simp add: i'_def)
          with less.prems(1) show ?thesis by auto
        qed
      qed
      have p1: "\<exists>q < length items'. shot (items' ! q) \<noteq> None"
        using less.prems(1) shots len by auto
      have p2: "\<forall>q < length items'. shot (items' ! q) \<noteq> None \<longrightarrow> target (items' ! q) \<noteq> None"
        using less.prems(2) shots len by (simp add: items'_def fillSegment_target_kept)
      have p3: "\<forall>q < i'. q < length items' \<longrightarrow> target (items' ! q) \<noteq> None"
      proof (intro allI impI)
        fix q assume q: "q < i'" "q < length items'"
        show "target (items' ! q) \<noteq> None"
        proof (cases "q < i")
          case True
          with less.prems(3) q len have "target (items ! q) \<noteq> None" by simp
          then show ?thesis
            unfolding items'_def using q(2) len by (intro fillSegment_target_kept) simp_all
        next
          case False
          then have "i \<le> q" "q < i + (i' - i)" using q(1) gt by simp_all
          then show ?thesis
            unfolding items'_def using q(2) len ab by (intro fillSegment_fills) simp_all
        qed
      qed
      have p4: "i' = 0 \<or> length items' \<le> i' \<or> shot (items' ! (i' - 1)) \<noteq> None
          \<or> shot (items' ! i') \<noteq> None"
      proof (cases "i' < length items")
        case True
        then have "shot (items ! i') \<noteq> None"
          unfolding i'_def by (rule scanMissing_stop)
        with shots True show ?thesis by simp
      next
        case False
        with len show ?thesis by simp
      qed
      have "length items' - i' < length items - i"
        using gt True len by simp
      then have "\<forall>q < length items'. target (inferLoop opt items' i' ! q) \<noteq> None"
        using p1 p2 p3 p4 by (rule less.hyps)
      with eq len show ?thesis by simp
    qed
  qed
qed

section \<open>Truncating division\<close>




section \<open>The uniqueness sweep\<close>

text \<open>
  The sweep at one index, in terms of the targets it has left behind it.
\<close>

lemma length_uniqueLoop: "length (uniqueLoop step prev items) = length items"
  by (induction items arbitrary: prev) (simp_all add: Let_def)

lemma target_bumpIfNeeded: "target it \<noteq> None \<Longrightarrow> target (bumpIfNeeded step prev it) \<noteq> None"
  by (simp add: bumpIfNeeded_def Let_def)

lemma bumpIfNeeded_anchor: "shot it \<noteq> None \<Longrightarrow> bumpIfNeeded step prev it = it"
  by (auto simp: bumpIfNeeded_def Let_def)

lemma bumpIfNeeded_bumped:
  assumes "shot it = None" "prev \<noteq> None" "the (target it) \<le> the prev"
  shows "bumpIfNeeded step prev it =
           it\<lparr>target := Some (the prev + step),
              targetReason := (if targetReason it = [] then [] else targetReason it @ '' + '')
                              @ ''unique(+1s steps)''\<rparr>"
  using assms by (auto simp: bumpIfNeeded_def Let_def)

lemma bumpIfNeeded_kept:
  "\<not> (shot it = None \<and> prev \<noteq> None \<and> the (target it) \<le> the prev) \<Longrightarrow>
     bumpIfNeeded step prev it = it"
  by (auto simp: bumpIfNeeded_def Let_def)

lemma uniqueLoop_unset:
  "target it = None \<Longrightarrow> uniqueLoop step prev (it # rest) = it # uniqueLoop step prev rest"
  by simp

lemma uniqueLoop_set:
  "target it \<noteq> None \<Longrightarrow>
     uniqueLoop step prev (it # rest) =
       bumpIfNeeded step prev it # uniqueLoop step (target (bumpIfNeeded step prev it)) rest"
  by (auto simp: Let_def)

lemma uniqueLoop_nth:
  "i < length items \<Longrightarrow>
     uniqueLoop step prev items ! i =
       (if target (items ! i) = None then items ! i
        else bumpIfNeeded step (lastTarget prev (take i (uniqueLoop step prev items))) (items ! i))"
proof (induction items arbitrary: prev i)
  case Nil
  then show ?case by simp
next
  case (Cons it rest)
  show ?case
  proof (cases i)
    case 0
    then show ?thesis by (simp add: Let_def)
  next
    case (Suc j)
    with Cons.prems have j: "j < length rest" by simp
    show ?thesis
    proof (cases "target it = None")
      case True
      with Suc Cons.IH [OF j, of prev] show ?thesis by simp
    next
      case False
      define it' where "it' = bumpIfNeeded step prev it"
      have t': "target it' \<noteq> None"
        unfolding it'_def using False by (rule target_bumpIfNeeded)
      have u: "uniqueLoop step prev (it # rest) = it' # uniqueLoop step (target it') rest"
        unfolding it'_def using False by (rule uniqueLoop_set)
      have l: "lastTarget prev (it' # xs) = lastTarget (target it') xs" for xs
        using t' by auto
      show ?thesis
        using Cons.IH [OF j, of "target it'"] by (simp only: u Suc nth_Cons_Suc take_Suc_Cons l)
    qed
  qed
qed

lemma target_uniqueLoop:
  assumes "i < length items" "target (items ! i) \<noteq> None"
  shows "target (uniqueLoop step prev items ! i) \<noteq> None"
proof -
  have "uniqueLoop step prev items ! i =
      bumpIfNeeded step (lastTarget prev (take i (uniqueLoop step prev items))) (items ! i)"
    using assms by (auto simp: uniqueLoop_nth)
  moreover have "target (bumpIfNeeded step
      (lastTarget prev (take i (uniqueLoop step prev items))) (items ! i)) \<noteq> None"
    using assms(2) by (rule target_bumpIfNeeded)
  ultimately show ?thesis by simp
qed

lemma lastTarget_snoc:
  "lastTarget prev (xs @ [it]) = (if target it = None then lastTarget prev xs else target it)"
  by (induction xs arbitrary: prev) simp_all

lemma lastTarget_take_Suc:
  assumes "i < length out"
  shows "lastTarget prev (take (Suc i) out) =
           (if target (out ! i) = None then lastTarget prev (take i out) else target (out ! i))"
  using assms by (simp add: take_Suc_conv_app_nth lastTarget_snoc)

lemma uniqueLoop_idem:
  "1 \<le> step \<Longrightarrow> uniqueLoop step' prev (uniqueLoop step prev items) = uniqueLoop step prev items"
proof (induction items arbitrary: prev)
  case Nil
  show ?case by simp
next
  case (Cons it rest)
  show ?case
  proof (cases "target it = None")
    case True
    with Cons show ?thesis by simp
  next
    case False
    define it' where "it' = bumpIfNeeded step prev it"
    have t': "target it' \<noteq> None"
      unfolding it'_def using False by (rule target_bumpIfNeeded)
    have stable: "bumpIfNeeded step' prev it' = it'"
      using Cons.prems False by (auto simp: it'_def bumpIfNeeded_def Let_def)
    have "uniqueLoop step prev (it # rest) = it' # uniqueLoop step (target it') rest"
      unfolding it'_def using False by (rule uniqueLoop_set)
    moreover have "uniqueLoop step' prev (it' # uniqueLoop step (target it') rest) =
        it' # uniqueLoop step' (target it') (uniqueLoop step (target it') rest)"
      using uniqueLoop_set [OF t', of step' prev] by (simp only: stable)
    ultimately show ?thesis using Cons.IH [OF Cons.prems, of "target it'"] by simp
  qed
qed

lemma makeFilled_idem:
  "makeFilledTargetsStrictlyIncreasing opt' (makeFilledTargetsStrictlyIncreasing opt items) =
     makeFilledTargetsStrictlyIncreasing opt items"
  by (simp add: makeFilledTargetsStrictlyIncreasing_def Let_def uniqueLoop_idem)

section \<open>Override, default assignment and the whole pipeline\<close>

text \<open>
  Neither stage touches the shot time; the default assignment gives every anchored
  record a target.
\<close>

lemma shot_applyFilenameOverrideForTarget [simp]:
  "shot (applyFilenameOverrideForTarget parseFilenameTime win32 opt it) = shot it"
  by (simp add: applyFilenameOverrideForTarget_def Let_def split: option.splits)

lemma shot_defaultAssign [simp]: "shot (defaultAssign it) = shot it"
  by (simp add: defaultAssign_def)

lemma target_defaultAssign: "shot it \<noteq> None \<Longrightarrow> target (defaultAssign it) \<noteq> None"
  by (auto simp: defaultAssign_def)



lemma resolveTargets_all_set:
  assumes "\<exists>it \<in> set items. shot it \<noteq> None"
  shows "\<forall>it \<in> set (resolveTargets parseFilenameTime win32 opt items). target it \<noteq> None"
proof -
  define items1 where "items1 = (if enableFilenameOverrideForTarget opt
      then map (applyFilenameOverrideForTarget parseFilenameTime win32 opt) items else items)"
  define items2 where "items2 = map defaultAssign items1"
  define items3 where "items3 = inferLoop opt items2 0"
  define out where "out = uniqueLoop (max 1 (oneSideStepSeconds opt)) None items3"
  have res: "resolveTargets parseFilenameTime win32 opt items = out"
    by (simp add: resolveTargets_def Let_def inferMissingByInterpolation_def
        makeFilledTargetsStrictlyIncreasing_def out_def items3_def items2_def items1_def)
  have len2: "length items2 = length items"
    by (simp add: items2_def items1_def)
  have shots2: "shot (items2 ! q) = shot (items ! q)" if "q < length items" for q
    using that by (simp add: items2_def items1_def)
  from assms obtain q where q: "q < length items" "shot (items ! q) \<noteq> None"
    by (auto simp: in_set_conv_nth)
  have a1: "\<exists>q < length items2. shot (items2 ! q) \<noteq> None"
    using q shots2 len2 by auto
  have a2: "\<forall>q < length items2. shot (items2 ! q) \<noteq> None \<longrightarrow> target (items2 ! q) \<noteq> None"
    by (simp add: items2_def target_defaultAssign)
  have "\<forall>q < length items2. target (inferLoop opt items2 0 ! q) \<noteq> None"
    using a1 a2 by (intro inferLoop_all_targets) simp_all
  then have t3: "\<forall>q < length items3. target (items3 ! q) \<noteq> None"
    by (simp add: items3_def length_inferLoop)
  have "\<forall>q < length out. target (out ! q) \<noteq> None"
    using t3 by (simp add: out_def length_uniqueLoop target_uniqueLoop)
  then show ?thesis
    unfolding res by (simp add: all_set_conv_all_nth)
qed

section \<open>The example of an overridden record without anchor\<close>



section \<open>The override resolver and default assignment\<close>



section \<open>The gap-inference engine\<close>

text \<open>
  Claim C8. The interpolation returns every record whose target is already set (by the
  override or by the default assignment) unchanged, target and reason included, and
  keeps the length of the vector.
\<close>

theorem gap_inference_keeps_set_targets:
  assumes "p < length items" and "target (items ! p) \<noteq> None"
  shows "inferMissingByInterpolation opt items ! p = items ! p
         \<and> length (inferMissingByInterpolation opt items) = length items"
  unfolding inferMissingByInterpolation_def
  using assms by (simp add: inferLoop_keeps length_inferLoop)

text \<open>
  Claim C8, at a record without shot time whose target the filename override has set:
  it keeps the overriding target and reason although an anchor follows its run.
\<close>

theorem gap_inference_keeps_set_targets_witness:
  "0 < length exOverridden \<and> target (exOverridden ! 0) \<noteq> None
   \<and> target (inferMissingByInterpolation defaultOptions exOverridden ! 0) = Some 1625401985
   \<and> targetReason (inferMissingByInterpolation defaultOptions exOverridden ! 0)
       = ''filename override (mtime too far)''"
proof -
  have l: "0 < length exOverridden" and t: "target (exOverridden ! 0) \<noteq> None"
    by (simp_all add: exOverridden_def)
  from gap_inference_keeps_set_targets [OF l t, of defaultOptions] l t show ?thesis
    by (simp add: exOverridden_def)
qed



text \<open>
  Claim C6. On a segment bounded by anchors on both sides whose gap exceeds the limit
  (\<open>anchorGapLimitDays\<close> times 86400 seconds) nothing is interpolated: the record at
  segment index \<open>j\<close> is assigned \<open>Tprev\<close> when \<open>j < m div 2\<close> and \<open>Tnext\<close> otherwise (a
  record whose target is already set stays as it is).
\<close>

theorem nearest_anchor_fill:
  assumes "segment items L m"
    and "prevAnchor items L = Some Tprev" and "nextAnchor items L m = Some Tnext"
    and "anchorGapLimitDays opt * 86400 < \<bar>Tnext - Tprev\<bar>"
    and "j < m"
  shows "let t = (if j < m div 2 then Tprev else Tnext);
             it = items ! (L + j);
             it' = inferMissingByInterpolation opt items ! (L + j)
         in (target it = None \<longrightarrow>
               target it' = Some t \<and> targetReason it' = ''gap too large -> nearest anchor fill'')
          \<and> (target it \<noteq> None \<longrightarrow> it' = it)"
proof -
  have b: "L + j < length items" using assms(1,5) by (rule segment_bound)
  have "inferMissingByInterpolation opt items ! (L + j) =
      fillSegment opt items L m (Some Tprev) (Some Tnext) ! (L + j)"
    using infer_segment [OF assms(1,5), of opt] assms(2,3) by simp
  also have "\<dots> = fillItem (items ! (L + j)) (if L + j - L < m div 2 then Tprev else Tnext)
      ''gap too large -> nearest anchor fill''"
    using assms(4,5) b by (intro fillSegment_nearest) simp_all
  finally have r: "inferMissingByInterpolation opt items ! (L + j) =
      fillItem (items ! (L + j)) (if j < m div 2 then Tprev else Tnext)
        ''gap too large -> nearest anchor fill''"
    by simp
  show ?thesis
    unfolding Let_def r using fillItem_cases by simp
qed

text \<open>
  Claim C6, at the anchors 0 and 1000000000 around four records with the limit of 90
  days (7776000 seconds): the first two records get 0, the last two 1000000000.
\<close>

theorem nearest_anchor_fill_witness:
  "segment exNearest 1 4 \<and> prevAnchor exNearest 1 = Some 0
   \<and> nextAnchor exNearest 1 4 = Some 1000000000
   \<and> anchorGapLimitDays defaultOptions * 86400 = 7776000
   \<and> map (\<lambda>j. target (inferMissingByInterpolation defaultOptions exNearest ! (1 + j)))
         [0, 1, 2, 3]
       = [Some 0, Some 0, Some 1000000000, Some 1000000000]"
proof -
  have seg: "segment exNearest 1 4"
    by (simp add: segment_def exNearest_def anchorItem_def newItem_def
        atLeastLessThan_upt upt_conv_Cons)
  have pa: "prevAnchor exNearest 1 = Some 0"
    and na: "nextAnchor exNearest 1 4 = Some 1000000000"
    by (simp_all add: prevAnchor_def nextAnchor_def exNearest_def anchorItem_def newItem_def)
  have lim: "anchorGapLimitDays defaultOptions * 86400 < \<bar>1000000000 - 0\<bar>"
    and days: "anchorGapLimitDays defaultOptions * 86400 = 7776000"
    by (simp_all add: defaultOptions_def)
  have t: "target (exNearest ! (1 + 0)) = None" "target (exNearest ! (1 + 1)) = None"
    "target (exNearest ! (1 + 2)) = None" "target (exNearest ! (1 + 3)) = None"
    by (simp_all add: exNearest_def newItem_def)
  note th = nearest_anchor_fill [OF seg pa na lim]
  have "target (inferMissingByInterpolation defaultOptions exNearest ! (1 + 0)) = Some 0"
    using th [of 0] t(1) by (simp add: Let_def)
  moreover have "target (inferMissingByInterpolation defaultOptions exNearest ! (1 + 1)) = Some 0"
    using th [of 1] t(2) by (simp add: Let_def)
  moreover have "target (inferMissingByInterpolation defaultOptions exNearest ! (1 + 2))
      = Some 1000000000"
    using th [of 2] t(3) by (simp add: Let_def)
  moreover have "target (inferMissingByInterpolation defaultOptions exNearest ! (1 + 3))
      = Some 1000000000"
    using th [of 3] t(4) by (simp add: Let_def)
  ultimately show ?thesis using seg pa na days by (simp add: eval_nat_numeral)
qed




text \<open>
  Claim C7 as stated fails for a segment with only a following anchor when stepping is
  disabled: the branch is guarded by \<open>oneSideStep\<close> like the one for a preceding anchor,
  and with stepping off the last record before an anchor at 500 receives 500, not
  \<open>500 - (3 - 3 + 1) * step = 499\<close>.
\<close>

theorem only_next_without_stepping_counterexample:
  "segment exOnlyNext 0 3 \<and> prevAnchor exOnlyNext 0 = None
   \<and> nextAnchor exOnlyNext 0 3 = Some 500 \<and> target (exOnlyNext ! 2) = None
   \<and> \<not> oneSideStep (defaultOptions\<lparr>oneSideStep := False\<rparr>)
   \<and> target (inferMissingByInterpolation (defaultOptions\<lparr>oneSideStep := False\<rparr>) exOnlyNext ! 2)
       = Some 500
   \<and> target (inferMissingByInterpolation (defaultOptions\<lparr>oneSideStep := False\<rparr>) exOnlyNext ! 2)
       \<noteq> Some (500 - (3 - 3 + 1) * oneSideStepSeconds (defaultOptions\<lparr>oneSideStep := False\<rparr>))"
proof -
  define opt where "opt = defaultOptions\<lparr>oneSideStep := False\<rparr>"
  have seg: "segment exOnlyNext 0 3"
    by (simp add: segment_def exOnlyNext_def anchorItem_def newItem_def
        atLeastLessThan_upt upt_conv_Cons)
  have pa: "prevAnchor exOnlyNext 0 = None" and na: "nextAnchor exOnlyNext 0 3 = Some 500"
    by (simp_all add: prevAnchor_def nextAnchor_def exOnlyNext_def anchorItem_def newItem_def)
  have t: "target (exOnlyNext ! (0 + 2)) = None"
    by (simp add: exOnlyNext_def newItem_def)
  have o: "\<not> oneSideStep opt" "oneSideStepSeconds opt = 1"
    by (simp_all add: opt_def defaultOptions_def)
  have "inferMissingByInterpolation opt exOnlyNext ! (0 + 2) =
      fillSegment opt exOnlyNext 0 3 None (Some 500) ! (0 + 2)"
    using infer_segment [OF seg, of 2 opt] pa na by simp
  also have "\<dots> = fillItem (exOnlyNext ! (0 + 2))
      (if oneSideStep opt then 500 - (int 3 - int (0 + 2 - 0)) * oneSideStepSeconds opt else 500)
      (if oneSideStep opt then ''only next anchor -> filled -1s steps''
       else ''only next anchor -> filled'')"
    by (rule fillSegment_next) (simp_all add: exOnlyNext_def)
  finally have "target (inferMissingByInterpolation opt exOnlyNext ! (0 + 2)) = Some 500"
    using t o by (simp add: fillItem_def)
  then show ?thesis
    using seg pa na t o unfolding opt_def by (simp add: eval_nat_numeral)
qed

text \<open>
  Claim C7, amended. On a segment with an anchor on one side only, the \<open>k\<close>-th record
  is assigned, with only \<open>Tprev\<close>: \<open>Tprev + k * step\<close> when stepping is enabled and \<open>Tprev\<close>
  when it is disabled; with only \<open>Tnext\<close>: \<open>Tnext - (m - k + 1) * step\<close> when stepping is
  enabled and \<open>Tnext\<close> when it is disabled (a record whose target is already set stays
  as it is). With a positive step the stepped time before \<open>Tnext\<close> is strictly before
  the anchor.
\<close>

theorem one_sided_step_fill:
  assumes "segment items L m" and "1 \<le> k" and "k \<le> m"
  shows "let step = oneSideStepSeconds opt;
             it = items ! (L + (k - 1));
             it' = inferMissingByInterpolation opt items ! (L + (k - 1))
         in (prevAnchor items L = Some Tprev \<and> nextAnchor items L m = None \<longrightarrow>
               (let t = (if oneSideStep opt then Tprev + int k * step else Tprev)
                in (target it = None \<longrightarrow> target it' = Some t) \<and> (target it \<noteq> None \<longrightarrow> it' = it)))
          \<and> (prevAnchor items L = None \<and> nextAnchor items L m = Some Tnext \<longrightarrow>
               (let t = (if oneSideStep opt then Tnext - (int m - int k + 1) * step else Tnext)
                in (target it = None \<longrightarrow> target it' = Some t) \<and> (target it \<noteq> None \<longrightarrow> it' = it)))
          \<and> (0 < step \<longrightarrow> Tnext - (int m - int k + 1) * step < Tnext)"
proof -
  define j where "j = k - 1"
  have j: "j < m" and k: "k = Suc j" using assms(2,3) by (simp_all add: j_def)
  have b: "L + j < length items" using assms(1) j by (rule segment_bound)
  have r: "inferMissingByInterpolation opt items ! (L + j) =
      fillSegment opt items L m (prevAnchor items L) (nextAnchor items L m) ! (L + j)"
    by (rule infer_segment [OF assms(1) j])
  have p: "fillSegment opt items L m (Some Tprev) None ! (L + j) =
      fillItem (items ! (L + j))
        (if oneSideStep opt then Tprev + int k * oneSideStepSeconds opt else Tprev)
        (if oneSideStep opt then ''only prev anchor -> filled +1s steps''
         else ''only prev anchor -> filled'')"
    using fillSegment_prev [of L "L + j" m items opt Tprev] j b by (simp add: k add.commute)
  have n: "fillSegment opt items L m None (Some Tnext) ! (L + j) =
      fillItem (items ! (L + j))
        (if oneSideStep opt then Tnext - (int m - int k + 1) * oneSideStepSeconds opt else Tnext)
        (if oneSideStep opt then ''only next anchor -> filled -1s steps''
         else ''only next anchor -> filled'')"
    using fillSegment_next [of L "L + j" m items opt Tnext] j b by (simp add: k)
  have "0 < (int m - int k + 1) * oneSideStepSeconds opt" if "0 < oneSideStepSeconds opt"
    using that assms(3) by (intro mult_pos_pos) simp_all
  then have lt: "0 < oneSideStepSeconds opt \<longrightarrow>
      Tnext - (int m - int k + 1) * oneSideStepSeconds opt < Tnext"
    by simp
  show ?thesis
    unfolding Let_def j_def [symmetric] using r p n lt fillItem_cases by auto
qed

text \<open>
  Claim C7, amended, with stepping enabled and step 1: an anchor at 100 before three
  records gives 101, 102, 103; an anchor at 500 after three records gives 497, 498,
  499.
\<close>

theorem one_sided_step_fill_witness:
  "segment exOnlyPrev 1 3 \<and> prevAnchor exOnlyPrev 1 = Some 100 \<and> nextAnchor exOnlyPrev 1 3 = None
   \<and> map (\<lambda>k. target (inferMissingByInterpolation defaultOptions exOnlyPrev ! (1 + (k - 1))))
         [1, 2, 3] = [Some 101, Some 102, Some 103]
   \<and> segment exOnlyNext 0 3 \<and> prevAnchor exOnlyNext 0 = None
   \<and> nextAnchor exOnlyNext 0 3 = Some 500
   \<and> map (\<lambda>k. target (inferMissingByInterpolation defaultOptions exOnlyNext ! (0 + (k - 1))))
         [1, 2, 3] = [Some 497, Some 498, Some 499]"
proof -
  have segp: "segment exOnlyPrev 1 3"
    by (simp add: segment_def exOnlyPrev_def anchorItem_def newItem_def
        atLeastLessThan_upt upt_conv_Cons)
  have pap: "prevAnchor exOnlyPrev 1 = Some 100" and nap: "nextAnchor exOnlyPrev 1 3 = None"
    by (simp_all add: prevAnchor_def nextAnchor_def exOnlyPrev_def anchorItem_def newItem_def)
  have segn: "segment exOnlyNext 0 3"
    by (simp add: segment_def exOnlyNext_def anchorItem_def newItem_def
        atLeastLessThan_upt upt_conv_Cons)
  have pan: "prevAnchor exOnlyNext 0 = None" and nan: "nextAnchor exOnlyNext 0 3 = Some 500"
    by (simp_all add: prevAnchor_def nextAnchor_def exOnlyNext_def anchorItem_def newItem_def)
  have tp: "target (exOnlyPrev ! (1 + (1 - 1))) = None" "target (exOnlyPrev ! (1 + (2 - 1))) = None"
    "target (exOnlyPrev ! (1 + (3 - 1))) = None"
    by (simp_all add: exOnlyPrev_def newItem_def)
  have tn: "target (exOnlyNext ! (0 + (1 - 1))) = None" "target (exOnlyNext ! (0 + (2 - 1))) = None"
    "target (exOnlyNext ! (0 + (3 - 1))) = None"
    by (simp_all add: exOnlyNext_def newItem_def)
  have o: "oneSideStep defaultOptions" "oneSideStepSeconds defaultOptions = 1"
    by (simp_all add: defaultOptions_def)
  note thp = one_sided_step_fill [OF segp, of _ defaultOptions 100 0]
  note thn = one_sided_step_fill [OF segn, of _ defaultOptions 0 500]
  have "target (inferMissingByInterpolation defaultOptions exOnlyPrev ! (1 + (1 - 1))) = Some 101"
    using thp [of 1] tp(1) pap nap o by (simp add: Let_def)
  moreover
  have "target (inferMissingByInterpolation defaultOptions exOnlyPrev ! (1 + (2 - 1))) = Some 102"
    using thp [of 2] tp(2) pap nap o by (simp add: Let_def)
  moreover
  have "target (inferMissingByInterpolation defaultOptions exOnlyPrev ! (1 + (3 - 1))) = Some 103"
    using thp [of 3] tp(3) pap nap o by (simp add: Let_def)
  moreover
  have "target (inferMissingByInterpolation defaultOptions exOnlyNext ! (0 + (1 - 1))) = Some 497"
    using thn [of 1] tn(1) pan nan o by (simp add: Let_def)
  moreover
  have "target (inferMissingByInterpolation defaultOptions exOnlyNext ! (0 + (2 - 1))) = Some 498"
    using thn [of 2] tn(2) pan nan o by (simp add: Let_def)
  moreover
  have "target (inferMissingByInterpolation defaultOptions exOnlyNext ! (0 + (3 - 1))) = Some 499"
    using thn [of 3] tn(3) pan nan o by (simp add: Let_def)
  ultimately show ?thesis
    using segp pap nap segn pan nan by (simp add: eval_nat_numeral)
qed

section \<open>The uniqueness pass\<close>

text \<open>
  Claim C2. The pass sweeps the records in order. Let \<open>prevTarget\<close> be the final target
  of the last record before position \<open>i\<close> that has a target, whatever its origin. A
  record without target is skipped and leaves \<open>prevTarget\<close> as it is. A record with a
  target and without anchor whose target is at most \<open>prevTarget\<close> gets the target
  \<open>prevTarget + step\<close> (\<open>step\<close> is \<open>max 1 oneSideStepSeconds\<close>) and "unique(+1s steps)"
  appended to its reason (after " + " when the reason was not empty); every other
  record with a target is unchanged, in particular every record that has an anchor.
  After a record with a target, \<open>prevTarget\<close> is that record's final target, bumped or
  not.
\<close>

theorem uniqueness_pass_sweep:
  assumes "i < length items"
  shows "let out = makeFilledTargetsStrictlyIncreasing opt items;
             step = max 1 (oneSideStepSeconds opt);
             prevTarget = lastTarget None (take i out);
             it = items ! i;
             it' = out ! i
         in length out = length items
          \<and> (target it = None \<longrightarrow>
                it' = it \<and> lastTarget None (take (Suc i) out) = prevTarget)
          \<and> (target it \<noteq> None \<longrightarrow> lastTarget None (take (Suc i) out) = target it')
          \<and> (target it \<noteq> None \<and> shot it = None \<and> prevTarget \<noteq> None
               \<and> the (target it) \<le> the prevTarget \<longrightarrow>
                it' = it\<lparr>target := Some (the prevTarget + step),
                         targetReason :=
                           (if targetReason it = [] then [] else targetReason it @ '' + '')
                           @ ''unique(+1s steps)''\<rparr>)
          \<and> (target it \<noteq> None
               \<and> \<not> (shot it = None \<and> prevTarget \<noteq> None \<and> the (target it) \<le> the prevTarget) \<longrightarrow>
                it' = it)
          \<and> (shot it \<noteq> None \<longrightarrow> it' = it)"
proof -
  define step where "step = max 1 (oneSideStepSeconds opt)"
  define out where "out = uniqueLoop step None items"
  define prevTarget where "prevTarget = lastTarget None (take i out)"
  have mk: "makeFilledTargetsStrictlyIncreasing opt items = out"
    by (simp add: makeFilledTargetsStrictlyIncreasing_def Let_def out_def step_def)
  have len: "length out = length items"
    by (simp add: out_def length_uniqueLoop)
  have nth: "out ! i = (if target (items ! i) = None then items ! i
      else bumpIfNeeded step prevTarget (items ! i))"
    unfolding out_def prevTarget_def using assms by (rule uniqueLoop_nth)
  have last: "lastTarget None (take (Suc i) out) =
      (if target (out ! i) = None then prevTarget else target (out ! i))"
    unfolding prevTarget_def using assms len by (intro lastTarget_take_Suc) simp
  have c1: "target (items ! i) = None \<longrightarrow>
      out ! i = items ! i \<and> lastTarget None (take (Suc i) out) = prevTarget"
    using nth last by simp
  have c2: "target (items ! i) \<noteq> None \<longrightarrow> lastTarget None (take (Suc i) out) = target (out ! i)"
  proof
    assume t: "target (items ! i) \<noteq> None"
    then have "out ! i = bumpIfNeeded step prevTarget (items ! i)" using nth by auto
    moreover have "target (bumpIfNeeded step prevTarget (items ! i)) \<noteq> None"
      using t by (rule target_bumpIfNeeded)
    ultimately have "target (out ! i) \<noteq> None" by simp
    with last show "lastTarget None (take (Suc i) out) = target (out ! i)" by auto
  qed
  have c3: "target (items ! i) \<noteq> None \<and> shot (items ! i) = None \<and> prevTarget \<noteq> None
      \<and> the (target (items ! i)) \<le> the prevTarget \<longrightarrow>
      out ! i = (items ! i)\<lparr>target := Some (the prevTarget + step),
        targetReason := (if targetReason (items ! i) = [] then []
                         else targetReason (items ! i) @ '' + '') @ ''unique(+1s steps)''\<rparr>"
    using nth bumpIfNeeded_bumped [of "items ! i" prevTarget step] by auto
  have c4: "target (items ! i) \<noteq> None
      \<and> \<not> (shot (items ! i) = None \<and> prevTarget \<noteq> None
            \<and> the (target (items ! i)) \<le> the prevTarget) \<longrightarrow> out ! i = items ! i"
    using nth bumpIfNeeded_kept [of "items ! i" prevTarget step] by auto
  have c5: "shot (items ! i) \<noteq> None \<longrightarrow> out ! i = items ! i"
    using nth bumpIfNeeded_anchor [of "items ! i" step prevTarget] by auto
  show ?thesis
    unfolding Let_def mk step_def [symmetric] prevTarget_def [symmetric]
    using len c1 c2 c3 c4 c5 by (intro conjI)
qed

text \<open>
  Claim C2, at an anchor resolved to 100 followed by a record inferred at 99: the
  second record ends with target 101.
\<close>

theorem uniqueness_pass_sweep_witness:
  "1 < length exBump \<and> shot (exBump ! 0) = Some 100 \<and> target (exBump ! 0) = Some 100
   \<and> shot (exBump ! 1) = None \<and> target (exBump ! 1) = Some 99
   \<and> lastTarget None (take 1 (makeFilledTargetsStrictlyIncreasing defaultOptions exBump)) = Some 100
   \<and> target (makeFilledTargetsStrictlyIncreasing defaultOptions exBump ! 1) = Some 101
   \<and> targetReason (makeFilledTargetsStrictlyIncreasing defaultOptions exBump ! 1)
       = ''interpolated between anchors + unique(+1s steps)''"
proof -
  have l: "1 < length exBump"
    by (simp add: exBump_def)
  have ex: "shot (exBump ! 0) = Some 100" "target (exBump ! 0) = Some 100"
    "shot (exBump ! 1) = None" "target (exBump ! 1) = Some 99"
    "targetReason (exBump ! 1) = ''interpolated between anchors''"
    by (simp_all add: exBump_def defaultAssign_def anchorItem_def newItem_def)
  have s: "max 1 (oneSideStepSeconds defaultOptions) = 1"
    by (simp add: defaultOptions_def)
  have prev: "lastTarget None (take 1 (makeFilledTargetsStrictlyIncreasing defaultOptions exBump))
      = Some 100"
    by (simp add: makeFilledTargetsStrictlyIncreasing_def Let_def exBump_def defaultAssign_def
        anchorItem_def newItem_def bumpIfNeeded_def)
  from uniqueness_pass_sweep [OF l, of defaultOptions] ex s prev l show ?thesis
    by (simp add: Let_def)
qed




section \<open>The pipeline as a whole\<close>



text \<open>
  Claim C9. On the output of the pipeline, when every record has a target, running the
  interpolation and then the uniqueness pass again returns the same sequence, targets
  and reasons included.
\<close>

theorem second_run_changes_nothing:
  assumes "out = resolveTargets parseFilenameTime win32 opt items"
    and "\<forall>it \<in> set out. target it \<noteq> None"
  shows "makeFilledTargetsStrictlyIncreasing opt (inferMissingByInterpolation opt out) = out"
proof -
  have "inferMissingByInterpolation opt out = out"
    unfolding inferMissingByInterpolation_def using assms(2) by (rule inferLoop_resolved)
  moreover have "makeFilledTargetsStrictlyIncreasing opt out = out"
    unfolding assms(1) resolveTargets_def Let_def by (rule makeFilled_idem)
  ultimately show ?thesis by simp
qed

text \<open>
  Claim C9, at one anchor between two records without shot time.
\<close>

theorem second_run_changes_nothing_witness:
  "list_all (\<lambda>it. target it \<noteq> None)
     (resolveTargets noTime False defaultOptions exOneAnchor)
   \<and> makeFilledTargetsStrictlyIncreasing defaultOptions
        (inferMissingByInterpolation defaultOptions
           (resolveTargets noTime False defaultOptions exOneAnchor))
       = resolveTargets noTime False defaultOptions exOneAnchor"
proof -
  have "\<exists>it \<in> set exOneAnchor. shot it \<noteq> None"
    by (simp add: exOneAnchor_def anchorItem_def newItem_def)
  then have all: "\<forall>it \<in> set (resolveTargets noTime False defaultOptions exOneAnchor).
      target it \<noteq> None"
    by (rule resolveTargets_all_set)
  from second_run_changes_nothing [OF refl all] all show ?thesis by (simp add: list_all_iff)
qed

end
